theory Spec2Isabelle
  imports Complex_Main "HOL-Library.AList"
begin

section \<open>Python strings and the built-ins the parser calls\<close>

text \<open>
  A Python \<open>str\<close> is modelled as a \<open>string\<close> whose characters are the code
  points 0 to 255; code points above 255 are outside the model. On this range the
  interpreter's character classes are the following.
\<close>

definition is_space :: "char \<Rightarrow> bool" where
  \<comment> \<open>\<open>str.isspace\<close>, \<open>str.strip\<close> and the regular expression class \<open>\s\<close>:
      TAB, LF, VT, FF, CR, FS, GS, RS, US, SPACE, NEL, NBSP.\<close>
  "is_space c =
     (let n = (of_char c :: nat)
      in (9 \<le> n \<and> n \<le> 13) \<or> (28 \<le> n \<and> n \<le> 32) \<or> n = 133 \<or> n = 160)"

definition is_digit :: "char \<Rightarrow> bool" where
  \<comment> \<open>the regular expression class \<open>\d\<close>; below 256 only the ASCII digits are decimal\<close>
  "is_digit c = (let n = (of_char c :: nat) in 48 \<le> n \<and> n \<le> 57)"

definition is_int_space :: "char \<Rightarrow> bool" where
  \<comment> \<open>what \<open>int()\<close> trims: the C whitespace TAB..CR and SPACE, and the non-ASCII
      spaces NEL and NBSP (which it rewrites to SPACE first); FS..US are not trimmed\<close>
  "is_int_space c =
     (let n = (of_char c :: nat)
      in (9 \<le> n \<and> n \<le> 13) \<or> n = 32 \<or> n = 133 \<or> n = 160)"

definition newline :: char where
  "newline = CHR 0x0A"

definition rstrip :: "string \<Rightarrow> string" where
  "rstrip s = rev (dropWhile is_space (rev s))"

definition py_strip :: "string \<Rightarrow> string" where
  \<comment> \<open>\<open>s.strip()\<close>\<close>
  "py_strip s = rstrip (dropWhile is_space s)"

fun py_in :: "string \<Rightarrow> string \<Rightarrow> bool" where
  \<comment> \<open>\<open>sub in s\<close> on strings: \<open>sub\<close> occurs at some position of \<open>s\<close>\<close>
  "py_in sub [] = (sub = [])"
| "py_in sub (c # s) = (take (length sub) (c # s) = sub \<or> py_in sub s)"

definition digit_val :: "char \<Rightarrow> nat" where
  "digit_val c = of_char c - 48"

definition dec_val :: "string \<Rightarrow> nat" where
  \<comment> \<open>the value of a string of decimal digits, most significant first\<close>
  "dec_val ds = foldl (\<lambda>a c. 10 * a + digit_val c) 0 ds"

fun int_digits :: "string \<Rightarrow> bool" where
  \<comment> \<open>the digit part of an \<open>int()\<close> literal: digits, with single underscores allowed
      between two digits\<close>
  "int_digits [] = False"
| "int_digits [c] = is_digit c"
| "int_digits (c # d # s) =
     (is_digit c \<and> (if d = CHR ''_'' then int_digits s else int_digits (d # s)))"

definition py_int :: "string \<Rightarrow> int option" where
  \<comment> \<open>\<open>int(s)\<close> in base 10; \<open>None\<close> stands for the \<open>ValueError\<close> it raises. The
      interpreter's configurable limit on the number of digits is not modelled.\<close>
  "py_int s =
     (let t = rev (dropWhile is_int_space (rev (dropWhile is_int_space s)));
          neg = (case t of c # _ \<Rightarrow> c = CHR ''-'' | [] \<Rightarrow> False);
          body = (case t of c # r \<Rightarrow> if c = CHR ''+'' \<or> c = CHR ''-'' then r else t | [] \<Rightarrow> t)
      in if int_digits body
         then (let v = int (dec_val (filter is_digit body)) in Some (if neg then - v else v))
         else None)"

definition py_float :: "string \<Rightarrow> rat" where
  \<comment> \<open>\<open>float(s)\<close> for the strings the group \<open>raw_time\<close> can hold, digits, a point,
      digits, on which it never raises. The value is the exact decimal; the rounding to
      the nearest binary64 number is not modelled.\<close>
  "py_float s =
     (let ip = takeWhile is_digit s; fp = drop 1 (dropWhile is_digit s)
      in of_nat (dec_val ip) + of_nat (dec_val fp) / 10 ^ length fp)"

section \<open>The two regular expressions\<close>

text \<open>
  \<open>_re_time = ^\s*(?P<raw_time>\d+\.\d+)(\+(?P<penalty>.+?))?\s*$\<close>, used with
  \<open>match\<close>. Leading spaces, the integer digits and the fraction digits are each taken
  maximally (giving one of them back leaves a character the next item cannot match).
  What follows the fraction is either all spaces (no penalty group; \<open>$\<close> also accepts a
  final line feed, which is a space), or \<open>+\<close> and the penalty: the lazy \<open>.+?\<close> stops
  at the first point from which only spaces remain, so the penalty runs to the last
  character that is not a space, and is the first character alone when all that follows
  \<open>+\<close> is spaces; \<open>.\<close> does not match a line feed. The result holds the two named
  groups.
\<close>

definition re_time :: "string \<Rightarrow> (string \<times> string option) option" where
  "re_time s =
     (let s1 = dropWhile is_space s;
          ip = takeWhile is_digit s1;
          s2 = dropWhile is_digit s1;
          fp = takeWhile is_digit (drop 1 s2);
          s4 = dropWhile is_digit (drop 1 s2);
          raw_time = ip @ ''.'' @ fp
      in if ip = [] \<or> take 1 s2 \<noteq> ''.'' \<or> fp = [] then None
         else if take 1 s4 = ''+'' then
           (let r = drop 1 s4;
                penalty = (if rstrip r = [] then take 1 r else rstrip r)
            in if penalty = [] \<or> newline \<in> set penalty then None
               else Some (raw_time, Some penalty))
         else if list_all is_space s4 then Some (raw_time, None)
         else None)"

text \<open>
  \<open>_re_run = ^\s*Run\s*(?P<num>\d+)(\s*..)?\s*$\<close>; the two dots are not escaped, so
  they match any two characters other than a line feed. \<open>re_run_tail\<close> is
  \<open>(\s*..)?\s*$\<close>: all spaces, or some of the leading spaces, two characters that are
  no line feeds, and spaces. The group \<open>num\<close> is greedy and gives digits back one at a
  time until the tail matches.
\<close>

definition re_run_tail :: "string \<Rightarrow> bool" where
  "re_run_tail u =
     (list_all is_space u \<or>
      list_ex (\<lambda>i. case drop i u of
                      a # b # w \<Rightarrow> a \<noteq> newline \<and> b \<noteq> newline \<and> list_all is_space w
                    | _ \<Rightarrow> False)
        [0..<Suc (length (takeWhile is_space u))])"

definition re_run :: "string \<Rightarrow> string option" where
  "re_run header =
     (let s1 = dropWhile is_space header;
          s2 = dropWhile is_space (drop 3 s1);
          ds = takeWhile is_digit s2;
          r = dropWhile is_digit s2
      in if take 3 s1 \<noteq> ''Run'' then None
         else map_option (\<lambda>j. take j ds)
                (List.find (\<lambda>j. re_run_tail (drop j ds @ r)) (rev [1..<Suc (length ds)])))"

section \<open>\<open>parse_time\<close>\<close>

datatype py_exn = ValueError | KeyError | TypeError | AttributeError | IndexError

type_synonym run = "rat \<times> int \<times> string"

definition parse_time_try :: "string option \<Rightarrow> py_exn + run option" where
  \<comment> \<open>the body of the \<open>try\<close>; \<open>Inl\<close> is an exception raised inside it\<close>
  "parse_time_try raw_value =
     (case raw_value of
        None \<Rightarrow> Inr None
      | Some s \<Rightarrow>
         (case re_time s of
            None \<Rightarrow> Inr None
          | Some (rt, penalty) \<Rightarrow>
             (let raw_time = py_float rt
              in case penalty of
                   None \<Rightarrow> Inr (Some (raw_time, 0, ''clean''))
                 | Some p \<Rightarrow>
                     if p \<in> set [''dnf'', ''dsq'', ''off'', ''out'']
                     then Inr (Some (raw_time, 0, p))
                     else if p \<noteq> []
                     then (case py_int p of
                             None \<Rightarrow> Inl ValueError
                           | Some n \<Rightarrow> Inr (Some (raw_time, n, ''dirty'')))
                     else Inr (Some (raw_time, 0, ''clean'')))))"

definition parse_time :: "string option \<Rightarrow> run option" where
  \<comment> \<open>\<open>except Exception\<close>: whatever the body raises is logged and becomes \<open>None\<close>\<close>
  "parse_time raw_value =
     (case parse_time_try raw_value of Inl e \<Rightarrow> None | Inr r \<Rightarrow> r)"

section \<open>The results table\<close>

text \<open>
  The document is taken after the HTML library has done its part (lines 45 to 52 of the
  source): \<open>filtered_rows\<close>, the rows of the last table that have more than three
  children. Of each row the parser reads the header cells (\<open>find_all("th")\<close>, of each
  its \<open>string\<close>, which the library gives as \<open>None\<close> when the cell does not hold
  exactly one string) and the data cells (\<open>find_all("td")\<close>, of each its \<open>text\<close>
  and whether its attributes hold \<open>valign\<close>).
\<close>

record cell =
  cell_text :: string
  valign :: bool

record html_row =
  th_strings :: "string option list"
  td_cells :: "cell list"

datatype pyval =
    VNone
  | VStr string
  | VInt int
  | VFloat rat
  | VRun run
  | VList "pyval list"

text \<open>A \<open>dict\<close> with string keys, in insertion order; storing under a key that is
  present keeps its place.\<close>

type_synonym entry = "(string \<times> pyval) list"

definition dict_update :: "entry \<Rightarrow> entry \<Rightarrow> entry" where
  \<comment> \<open>\<open>d.update(e)\<close>\<close>
  "dict_update d e = foldl (\<lambda>d (k, v). AList.update k v d) d e"

definition set_runs :: "pyval list option \<Rightarrow> entry \<Rightarrow> entry" where
  \<comment> \<open>\<open>d["Runs"] = current_runs\<close>, where \<open>current_runs\<close> is a list or \<open>None\<close>\<close>
  "set_runs current_runs d =
     AList.update ''Runs'' (case current_runs of None \<Rightarrow> VNone | Some rs \<Rightarrow> VList rs) d"

fun headers_of :: "string option list \<Rightarrow> py_exn + string list" where
  \<comment> \<open>\<open>[t.string.strip() for t in header_row.find_all("th")]\<close>\<close>
  "headers_of [] = Inr []"
| "headers_of (None # ts) = Inl AttributeError"
| "headers_of (Some s # ts) =
     (case headers_of ts of Inl e \<Rightarrow> Inl e | Inr hs \<Rightarrow> Inr (py_strip s # hs))"

fun detect_multirow :: "string list \<Rightarrow> bool" where
  \<comment> \<open>lines 59 to 66: the first header with \<open>Run\<close> and \<open>..\<close> ends the scan\<close>
  "detect_multirow [] = False"
| "detect_multirow (header # rest) =
     (if \<not> py_in ''Run'' header then detect_multirow rest
      else if py_in ''..'' header then True
      else detect_multirow rest)"

definition cell_value :: "string \<Rightarrow> string \<Rightarrow> py_exn + pyval" where
  \<comment> \<open>lines 84 to 96: the value of a cell, from its header and its stripped text\<close>
  "cell_value header text =
     (if py_in ''Run'' header then
        Inr (case parse_time (Some text) of None \<Rightarrow> VNone | Some r \<Rightarrow> VRun r)
      else if header = ''Pax Time'' then
        Inr (case parse_time (Some text) of None \<Rightarrow> VNone | Some (t, n, st) \<Rightarrow> VFloat t)
      else if header = ''Pos'' then
        (case py_int (filter (\<lambda>c. c \<noteq> CHR ''T'') text) of
           None \<Rightarrow> Inl ValueError
         | Some n \<Rightarrow> Inr (VInt n))
      else Inr (VStr text))"

definition cell_step ::
  "entry \<times> pyval list \<Rightarrow> string \<times> cell \<Rightarrow> py_exn + entry \<times> pyval list" where
  \<comment> \<open>lines 81 to 115: one turn of the loop over \<open>zip(headers, row_data)\<close>\<close>
  "cell_step acc hc =
     (case acc of (entry, runs) \<Rightarrow>
      case hc of (header, raw_value) \<Rightarrow>
        (let text = py_strip (cell_text raw_value)
         in case cell_value header text of
              Inl e \<Rightarrow> Inl e
            | Inr v \<Rightarrow>
                if py_in ''Run'' header then
                  if \<not> valign raw_value then Inr (entry, runs)
                  else if v = VNone then Inr (entry, runs)
                  else (case re_run header of
                          None \<Rightarrow> Inl AttributeError
                        | Some num \<Rightarrow>
                           (case py_int num of
                              None \<Rightarrow> Inl ValueError
                            | Some run_num \<Rightarrow> Inr (entry, runs @ [v])))
                else Inr (AList.update header v entry, runs)))"

fun cells_loop ::
  "entry \<times> pyval list \<Rightarrow> (string \<times> cell) list \<Rightarrow> py_exn + entry \<times> pyval list" where
  "cells_loop acc [] = Inr acc"
| "cells_loop acc (hc # rest) =
     (case cell_step acc hc of Inl e \<Rightarrow> Inl e | Inr acc' \<Rightarrow> cells_loop acc' rest)"

text \<open>The state of the loop over the result rows: \<open>results\<close>, \<open>current_entry\<close> and
  \<open>current_runs\<close>, the last two \<open>None\<close> until a row opens an entry.\<close>

type_synonym loop_state = "entry list \<times> entry option \<times> pyval list option"

definition flush_previous :: "loop_state \<Rightarrow> entry list" where
  \<comment> \<open>lines 122 to 124; \<open>if current_entry\<close> is false for \<open>None\<close> and for the empty
      \<open>dict\<close>\<close>
  "flush_previous st =
     (case st of (results, current_entry, current_runs) \<Rightarrow>
        (case current_entry of
           None \<Rightarrow> results
         | Some ce \<Rightarrow> if ce \<noteq> [] then results @ [set_runs current_runs ce] else results))"

definition continue_entry ::
  "loop_state \<Rightarrow> entry \<Rightarrow> pyval list \<Rightarrow> py_exn + loop_state" where
  \<comment> \<open>lines 134 to 138: \<open>in\<close> on \<open>None\<close> raises \<open>TypeError\<close>, a missing key
      \<open>KeyError\<close>, \<open>append\<close> on \<open>None\<close> \<open>AttributeError\<close>\<close>
  "continue_entry st entry runs =
     (case st of (results, current_entry, current_runs) \<Rightarrow>
        (case current_entry of
           None \<Rightarrow> Inl TypeError
         | Some ce \<Rightarrow>
            (case (if ''Diff.'' \<notin> fst ` set ce
                   then (case map_of entry ''Total'' of
                           None \<Rightarrow> Inl KeyError
                         | Some v \<Rightarrow> Inr (AList.update ''Diff.'' v ce))
                   else Inr ce) of
               Inl e \<Rightarrow> Inl e
             | Inr ce' \<Rightarrow>
                (case current_runs of
                   None \<Rightarrow> if runs = [] then Inr (results, Some ce', None)
                            else Inl AttributeError
                 | Some cr \<Rightarrow> Inr (results, Some ce', Some (cr @ runs))))))"

definition row_step ::
  "string list \<Rightarrow> bool \<Rightarrow> loop_state \<Rightarrow> cell list \<Rightarrow> py_exn + loop_state" where
  \<comment> \<open>lines 76 to 142: one result row\<close>
  "row_step headers multirow st row_data =
     (case cells_loop ([], []) (zip headers row_data) of
        Inl e \<Rightarrow> Inl e
      | Inr (entry, runs) \<Rightarrow>
          if multirow then
            (case row_data of
               [] \<Rightarrow> Inl IndexError
             | c0 # cs \<Rightarrow>
                 if cell_text c0 \<noteq> []
                 then Inr (flush_previous st, Some (dict_update [] entry), Some runs)
                 else continue_entry st entry runs)
          else
            (case st of (results, current_entry, current_runs) \<Rightarrow>
               Inr (results @ [set_runs current_runs entry], current_entry, current_runs)))"

fun rows_loop ::
  "string list \<Rightarrow> bool \<Rightarrow> loop_state \<Rightarrow> cell list list \<Rightarrow> py_exn + loop_state" where
  "rows_loop headers multirow st [] = Inr st"
| "rows_loop headers multirow st (row_data # rest) =
     (case row_step headers multirow st row_data of
        Inl e \<Rightarrow> Inl e
      | Inr st' \<Rightarrow> rows_loop headers multirow st' rest)"

definition parse_axware_live_results :: "html_row list \<Rightarrow> py_exn + entry list" where
  \<comment> \<open>from line 53 on; \<open>Inl\<close> is the exception the call ends with\<close>
  "parse_axware_live_results filtered_rows =
     (case filtered_rows of
        [] \<Rightarrow> Inl IndexError
      | header_row # result_rows \<Rightarrow>
         (case headers_of (th_strings header_row) of
            Inl e \<Rightarrow> Inl e
          | Inr headers \<Rightarrow>
             (let multirow = detect_multirow headers
              in case rows_loop headers multirow ([], None, None)
                        (map td_cells result_rows) of
                   Inl e \<Rightarrow> Inl e
                 | Inr (results, current_entry, current_runs) \<Rightarrow>
                     if multirow then
                       (case current_entry of
                          None \<Rightarrow> Inl TypeError
                        | Some ce \<Rightarrow> Inr (results @ [set_runs current_runs ce]))
                     else Inr results)))"

section \<open>Notions the properties are stated with\<close>

text \<open>
  A time string, in the words of the grammar: a decimal number with spaces allowed
  around it, and after the number either nothing or \<open>+\<close> and a suffix that is one of the
  four status tokens or text that \<open>int()\<close> accepts.
\<close>

definition time_string :: "string \<Rightarrow> bool" where
  "time_string s \<longleftrightarrow>
     (\<exists>ws1 ip fp sfx ws2.
        s = ws1 @ ip @ ''.'' @ fp @ sfx @ ws2 \<and>
        list_all is_space ws1 \<and> list_all is_space ws2 \<and>
        ip \<noteq> [] \<and> list_all is_digit ip \<and> fp \<noteq> [] \<and> list_all is_digit fp \<and>
        (sfx = [] \<or>
         (\<exists>p. sfx = ''+'' @ p \<and>
              (p \<in> {''dnf'', ''dsq'', ''off'', ''out''} \<or> py_int p \<noteq> None))))"

text \<open>
  The run cells of a row, left to right: the cells under a header that contains
  \<open>Run\<close> which carry \<open>valign\<close> and whose stripped text \<open>parse_time\<close> accepts, each
  with the value \<open>parse_time\<close> gives it.
\<close>

definition run_cells :: "string list \<Rightarrow> cell list \<Rightarrow> pyval list" where
  "run_cells headers row_data =
     concat (map (\<lambda>(header, c).
                if py_in ''Run'' header \<and> valign c
                then (case parse_time (Some (py_strip (cell_text c))) of
                        None \<Rightarrow> [] | Some r \<Rightarrow> [VRun r])
                else [])
             (zip headers row_data))"

text \<open>
  The shape of a run header in the words of the property: \<open>Run\<close>, digits, and
  optionally two dots, with the spaces \<open>_re_run\<close> allows; the two dots are read as
  dots.
\<close>

definition run_shape :: "string \<Rightarrow> bool" where
  "run_shape header =
     (let s1 = dropWhile is_space header;
          s2 = dropWhile is_space (drop 3 s1);
          ds = takeWhile is_digit s2;
          r = dropWhile is_digit s2;
          t = dropWhile is_space r
      in take 3 s1 = ''Run'' \<and> ds \<noteq> [] \<and>
         (list_all is_space r \<or> (take 2 t = ''..'' \<and> list_all is_space (drop 2 t))))"

text \<open>Shorthand for writing rows down.\<close>

abbreviation td :: "string \<Rightarrow> bool \<Rightarrow> cell" where
  "td t v \<equiv> \<lparr>cell_text = t, valign = v\<rparr>"

abbreviation tr_th :: "string list \<Rightarrow> html_row" where
  "tr_th hs \<equiv> \<lparr>th_strings = map Some hs, td_cells = []\<rparr>"

abbreviation tr_td :: "cell list \<Rightarrow> html_row" where
  "tr_td cs \<equiv> \<lparr>th_strings = [], td_cells = cs\<rparr>"

section \<open>Substrings and layout detection\<close>

lemma py_in_iff: "py_in sub s \<longleftrightarrow> (\<exists>ps ss. s = ps @ sub @ ss)"
proof (induction s)
  case Nil
  then show ?case by auto
next
  case (Cons c s)
  show ?case
  proof
    assume "py_in sub (c # s)"
    then consider "take (length sub) (c # s) = sub" | "py_in sub s" by auto
    then show "\<exists>ps ss. c # s = ps @ sub @ ss"
    proof cases
      case 1
      then have "c # s = [] @ sub @ drop (length sub) (c # s)"
        by (metis append_Nil append_take_drop_id)
      then show ?thesis by blast
    next
      case 2
      with Cons.IH obtain ps ss where "s = ps @ sub @ ss" by blast
      then have "c # s = (c # ps) @ sub @ ss" by simp
      then show ?thesis by blast
    qed
  next
    assume "\<exists>ps ss. c # s = ps @ sub @ ss"
    then obtain ps ss where e: "c # s = ps @ sub @ ss" by blast
    show "py_in sub (c # s)"
    proof (cases ps)
      case Nil
      with e have "take (length sub) (c # s) = sub" by simp
      then show ?thesis by simp
    next
      case (Cons p ps')
      with e have "s = ps' @ sub @ ss" by simp
      with Cons.IH have "py_in sub s" by blast
      then show ?thesis by simp
    qed
  qed
qed

lemma detect_multirow_iff:
  "detect_multirow headers \<longleftrightarrow> (\<exists>h\<in>set headers. py_in ''Run'' h \<and> py_in ''..'' h)"
  by (induction headers) auto

text \<open>
  Claim C7. The layout is decided by the header names alone: the scan selects the
  multi-row layout exactly when some header name contains \<open>Run\<close> and also contains
  \<open>..\<close>. Headers that include \<open>Run 1..\<close> and \<open>Run 2..\<close> select it; headers that are
  only \<open>Run 1\<close> and \<open>Run 2\<close> do not.
\<close>

theorem layout_detection:
  "(detect_multirow headers \<longleftrightarrow>
      (\<exists>h\<in>set headers. (\<exists>ps ss. h = ps @ ''Run'' @ ss) \<and> (\<exists>ps ss. h = ps @ ''..'' @ ss)))
   \<and> (''Run 1..'' \<in> set headers \<and> ''Run 2..'' \<in> set headers \<longrightarrow> detect_multirow headers)
   \<and> (set headers \<subseteq> {''Run 1'', ''Run 2''} \<longrightarrow> \<not> detect_multirow headers)"
proof -
  have a: "detect_multirow headers \<longleftrightarrow>
      (\<exists>h\<in>set headers. (\<exists>ps ss. h = ps @ ''Run'' @ ss) \<and> (\<exists>ps ss. h = ps @ ''..'' @ ss))"
    by (simp only: detect_multirow_iff py_in_iff)
  have b: "py_in ''Run'' ''Run 1..'' \<and> py_in ''..'' ''Run 1..''" by simp
  have c: "\<not> py_in ''..'' ''Run 1''" "\<not> py_in ''..'' ''Run 2''" by simp_all
  have "''Run 1..'' \<in> set headers \<Longrightarrow> detect_multirow headers"
    using b detect_multirow_iff by blast
  moreover have "set headers \<subseteq> {''Run 1'', ''Run 2''} \<Longrightarrow> \<not> detect_multirow headers"
    using c detect_multirow_iff by blast
  ultimately show ?thesis using a by blast
qed

theorem layout_detection_witness:
  "detect_multirow [''Pos'', ''Run 1..'', ''Run 2..'']
   \<and> (\<exists>h\<in>set [''Pos'', ''Run 1..'', ''Run 2..''].
         (\<exists>ps ss. h = ps @ ''Run'' @ ss) \<and> (\<exists>ps ss. h = ps @ ''..'' @ ss))
   \<and> ''Run 1..'' \<in> set [''Pos'', ''Run 1..'', ''Run 2..'']
   \<and> set [''Run 1'', ''Run 2''] \<subseteq> {''Run 1'', ''Run 2''}
   \<and> \<not> detect_multirow [''Run 1'', ''Run 2'']"
proof -
  have d: "detect_multirow [''Pos'', ''Run 1..'', ''Run 2..'']" by simp
  have s: "set [''Run 1'', ''Run 2''] \<subseteq> {''Run 1'', ''Run 2''}" by simp
  show ?thesis
    using d s layout_detection [of "[''Pos'', ''Run 1..'', ''Run 2..'']"]
      layout_detection [of "[''Run 1'', ''Run 2'']"]
    by simp
qed

section \<open>Characters, stripping and the time pattern\<close>

lemma digit_facts:
  assumes "is_digit c"
  shows "\<not> is_space c" "\<not> is_int_space c" "c \<noteq> CHR ''.''" "c \<noteq> CHR ''+''"
    "c \<noteq> CHR ''-''" "c \<noteq> CHR ''_''" "c \<noteq> newline"
  using assms by (auto simp: is_digit_def is_space_def is_int_space_def newline_def Let_def)

lemma char_facts:
  "\<not> is_digit (CHR ''.'')" "\<not> is_space (CHR ''.'')" "\<not> is_digit (CHR ''+'')"
  "\<not> is_space (CHR ''+'')" "is_space newline"
  by (simp_all add: is_digit_def is_space_def newline_def)

lemma rstrip_append_space: "list_all is_space w \<Longrightarrow> rstrip (s @ w) = rstrip s"
  by (simp add: rstrip_def list_all_iff dropWhile_append)

lemma rstrip_id: "s \<noteq> [] \<Longrightarrow> \<not> is_space (last s) \<Longrightarrow> rstrip s = s"
  by (cases s rule: rev_cases) (simp_all add: rstrip_def)

lemma rstrip_decomp: "\<exists>w. s = rstrip s @ w \<and> list_all is_space w"
proof -
  have "rev s = takeWhile is_space (rev s) @ dropWhile is_space (rev s)" by simp
  then have "s = rev (dropWhile is_space (rev s)) @ rev (takeWhile is_space (rev s))"
    by (metis rev_append rev_rev_ident)
  moreover have "list_all is_space (rev (takeWhile is_space (rev s)))"
    by (simp add: list_all_iff) (meson set_takeWhileD)
  ultimately show ?thesis unfolding rstrip_def by blast
qed

lemma rstrip_Nil_iff: "rstrip s = [] \<longleftrightarrow> list_all is_space s"
  by (simp add: rstrip_def list_all_iff dropWhile_eq_Nil_conv)

text \<open>What \<open>re_time\<close> does on a string that starts with spaces and a number.\<close>

lemma re_time_number:
  assumes ws: "list_all is_space ws"
    and ip: "ip \<noteq> []" "list_all is_digit ip"
    and fp: "fp \<noteq> []" "list_all is_digit fp"
    and rest: "rest = [] \<or> \<not> is_digit (hd rest)"
  shows "re_time (ws @ ip @ ''.'' @ fp @ rest) =
     (if take 1 rest = ''+'' then
        (let r = drop 1 rest;
             penalty = (if rstrip r = [] then take 1 r else rstrip r)
         in if penalty = [] \<or> newline \<in> set penalty then None
            else Some (ip @ ''.'' @ fp, Some penalty))
      else if list_all is_space rest then Some (ip @ ''.'' @ fp, None)
      else None)"
proof -
  define S where "S = ws @ ip @ ''.'' @ fp @ rest"
  have hd_ip: "\<not> is_space (hd ip)"
    using ip by (cases ip) (auto simp: digit_facts)
  have s1: "dropWhile is_space S = ip @ ''.'' @ fp @ rest"
    unfolding S_def using ws ip hd_ip by (cases ip) (auto simp: list_all_iff dropWhile_append)
  have ipf: "takeWhile is_digit (dropWhile is_space S) = ip"
    unfolding s1 using ip by (simp add: list_all_iff takeWhile_append char_facts)
  have s2: "dropWhile is_digit (dropWhile is_space S) = ''.'' @ fp @ rest"
    unfolding s1 using ip by (simp add: list_all_iff dropWhile_append char_facts)
  have tk: "take 1 (dropWhile is_digit (dropWhile is_space S)) = ''.''"
    unfolding s2 by simp
  have s3: "drop 1 (dropWhile is_digit (dropWhile is_space S)) = fp @ rest"
    unfolding s2 by simp
  have fpf: "takeWhile is_digit (drop 1 (dropWhile is_digit (dropWhile is_space S))) = fp"
    unfolding s3 using fp rest by (cases rest) (auto simp: list_all_iff takeWhile_append)
  have s4: "dropWhile is_digit (drop 1 (dropWhile is_digit (dropWhile is_space S))) = rest"
    unfolding s3 using fp rest by (cases rest) (auto simp: list_all_iff dropWhile_append)
  have "re_time S =
     (if take 1 rest = ''+'' then
        (let r = drop 1 rest;
             penalty = (if rstrip r = [] then take 1 r else rstrip r)
         in if penalty = [] \<or> newline \<in> set penalty then None
            else Some (ip @ ''.'' @ fp, Some penalty))
      else if list_all is_space rest then Some (ip @ ''.'' @ fp, None)
      else None)"
    unfolding re_time_def Let_def ipf tk fpf s4 using ip(1) fp(1) by simp
  then show ?thesis unfolding S_def .
qed

lemma py_float_number:
  assumes "list_all is_digit ip"
  shows "py_float (ip @ ''.'' @ fp) = of_nat (dec_val ip) + of_nat (dec_val fp) / 10 ^ length fp"
  using assms
  by (simp add: py_float_def list_all_iff takeWhile_append dropWhile_append char_facts)

lemma int_digits_all: "ds \<noteq> [] \<Longrightarrow> list_all is_digit ds \<Longrightarrow> int_digits ds"
  by (induction ds rule: int_digits.induct) (auto simp: digit_facts)

lemma py_int_digits:
  assumes "ds \<noteq> []" "list_all is_digit ds"
  shows "py_int ds = Some (int (dec_val ds))"
proof -
  obtain c r where ds: "ds = c # r" using assms by (cases ds) auto
  have c: "is_digit c" using assms ds by simp
  have l: "is_digit (last ds)" using assms by (simp add: list_all_iff)
  have a: "dropWhile is_int_space ds = ds" using c ds by (simp add: digit_facts)
  have b: "dropWhile is_int_space (rev ds) = rev ds"
    using l assms(1) by (cases ds rule: rev_cases) (simp_all add: digit_facts)
  have f: "filter is_digit ds = ds" using assms by (simp add: list_all_iff)
  show ?thesis
    unfolding py_int_def a b
    using int_digits_all [OF assms] c f digit_facts [OF c]
    by (simp add: ds Let_def)
qed

lemma re_time_penalty:
  assumes ws: "list_all is_space ws1" "list_all is_space ws2"
    and ip: "ip \<noteq> []" "list_all is_digit ip"
    and fp: "fp \<noteq> []" "list_all is_digit fp"
    and p: "p \<noteq> []" "\<not> is_space (last p)" "newline \<notin> set p"
  shows "re_time (ws1 @ ip @ ''.'' @ fp @ ''+'' @ p @ ws2) = Some (ip @ ''.'' @ fp, Some p)"
proof -
  have r: "rstrip (p @ ws2) = p"
    using ws(2) p by (simp add: rstrip_append_space rstrip_id)
  have "re_time (ws1 @ ip @ ''.'' @ fp @ (''+'' @ p @ ws2)) = Some (ip @ ''.'' @ fp, Some p)"
    by (subst re_time_number [OF ws(1) ip fp]) (simp_all add: char_facts r p)
  then show ?thesis by simp
qed

lemma re_time_plain:
  assumes ws: "list_all is_space ws1" "list_all is_space ws2"
    and ip: "ip \<noteq> []" "list_all is_digit ip"
    and fp: "fp \<noteq> []" "list_all is_digit fp"
  shows "re_time (ws1 @ ip @ ''.'' @ fp @ ws2) = Some (ip @ ''.'' @ fp, None)"
proof -
  have h: "ws2 = [] \<or> \<not> is_digit (hd ws2)"
    using ws(2) by (cases ws2) (auto simp: digit_facts)
  have t: "take 1 ws2 \<noteq> ''+''"
    using ws(2) by (cases ws2) (auto simp: char_facts)
  show ?thesis
    by (subst re_time_number [OF ws(1) ip fp h]) (simp add: t ws(2) del: One_nat_def)
qed

lemma re_time_sound:
  assumes "re_time s = Some (rt, pen)"
  shows "\<exists>ws1 ip fp ws2.
           s = ws1 @ ip @ ''.'' @ fp @ (case pen of None \<Rightarrow> [] | Some p \<Rightarrow> ''+'' @ p) @ ws2 \<and>
           rt = ip @ ''.'' @ fp \<and>
           list_all is_space ws1 \<and> list_all is_space ws2 \<and>
           ip \<noteq> [] \<and> list_all is_digit ip \<and> fp \<noteq> [] \<and> list_all is_digit fp"
proof -
  define ws1 where "ws1 = takeWhile is_space s"
  define s1 where "s1 = dropWhile is_space s"
  define ip where "ip = takeWhile is_digit s1"
  define s2 where "s2 = dropWhile is_digit s1"
  define fp where "fp = takeWhile is_digit (drop 1 s2)"
  define s4 where "s4 = dropWhile is_digit (drop 1 s2)"
  note defs = s1_def ip_def s2_def fp_def s4_def
  have ok: "ip \<noteq> []" "take 1 s2 = ''.''" "fp \<noteq> []"
    using assms unfolding re_time_def Let_def defs by (auto split: if_splits)
  have rt: "rt = ip @ ''.'' @ fp"
    using assms unfolding re_time_def Let_def defs by (auto split: if_splits)
  have s: "s = ws1 @ ip @ ''.'' @ fp @ s4"
  proof -
    have "s = ws1 @ s1" by (simp add: ws1_def s1_def)
    moreover have "s1 = ip @ s2" by (simp add: ip_def s2_def)
    moreover have "s2 = ''.'' @ drop 1 s2" using ok(2) by (metis append_take_drop_id)
    moreover have "drop 1 s2 = fp @ s4" by (simp add: fp_def s4_def)
    ultimately show ?thesis by metis
  qed
  have cl: "list_all is_space ws1" "list_all is_digit ip" "list_all is_digit fp"
    unfolding ws1_def ip_def fp_def list_all_iff by (auto dest: set_takeWhileD)
  show ?thesis
  proof (cases "take 1 s4 = ''+''")
    case True
    define r where "r = drop 1 s4"
    have s4: "s4 = ''+'' @ r" using True unfolding r_def by (metis append_take_drop_id)
    have pen: "pen = Some (if rstrip r = [] then take 1 r else rstrip r)"
      and ne: "(if rstrip r = [] then take 1 r else rstrip r) \<noteq> []"
      using assms True ok unfolding re_time_def Let_def defs r_def
      by (auto split: if_splits)
    obtain p where p: "pen = Some p" "p = (if rstrip r = [] then take 1 r else rstrip r)"
      using pen by blast
    have "\<exists>w. r = p @ w \<and> list_all is_space w"
    proof (cases "rstrip r = []")
      case True
      then have "list_all is_space r" by (simp add: rstrip_Nil_iff)
      then have "list_all is_space (drop 1 r)"
        by (metis append_take_drop_id list_all_append)
      moreover have "r = take 1 r @ drop 1 r" by simp
      ultimately show ?thesis using True p(2) by metis
    next
      case False
      then show ?thesis using rstrip_decomp [of r] p(2) by simp
    qed
    then obtain w where w: "r = p @ w" "list_all is_space w" by blast
    have "s = ws1 @ ip @ ''.'' @ fp @ (''+'' @ p) @ w"
      using s s4 w(1) by simp
    then show ?thesis using p(1) rt cl w(2) ok by auto
  next
    case False
    then have "pen = None" "list_all is_space s4"
      using assms ok unfolding re_time_def Let_def defs by (auto split: if_splits)
    then show ?thesis using s rt cl ok by auto
  qed
qed

lemma re_time_penalty_ok:
  assumes "re_time s = Some (rt, Some p)"
  shows "p \<noteq> [] \<and> newline \<notin> set p"
  using assms unfolding re_time_def Let_def by (auto split: if_splits)

lemma parse_time_Some_time_string:
  assumes "parse_time (Some s) = Some r"
  shows "time_string s"
proof -
  obtain rt pen where m: "re_time s = Some (rt, pen)"
    using assms unfolding parse_time_def parse_time_try_def
    by (cases "re_time s") auto
  have sfx: "pen = None \<or> (\<exists>p. pen = Some p \<and>
      (p \<in> {''dnf'', ''dsq'', ''off'', ''out''} \<or> py_int p \<noteq> None))"
    using assms m re_time_penalty_ok [of s rt] unfolding parse_time_def parse_time_try_def
    by (cases pen) (auto simp: Let_def split: if_splits option.splits)
  from re_time_sound [OF m] obtain ws1 ip fp ws2 where d:
    "s = ws1 @ ip @ ''.'' @ fp @ (case pen of None \<Rightarrow> [] | Some p \<Rightarrow> ''+'' @ p) @ ws2"
    "list_all is_space ws1" "list_all is_space ws2"
    "ip \<noteq> []" "list_all is_digit ip" "fp \<noteq> []" "list_all is_digit fp"
    by blast
  show ?thesis
    unfolding time_string_def
    apply (rule exI [of _ ws1], rule exI [of _ ip], rule exI [of _ fp])
    apply (rule exI [of _ "case pen of None \<Rightarrow> [] | Some p \<Rightarrow> ''+'' @ p"], rule exI [of _ ws2])
    using d sfx by (auto split: option.splits)
qed

text \<open>
  Claim C3. The suffix rule of \<open>parse_time\<close>. For a number, digits, a point and digits
  (spaces around it allowed): with no suffix the result is the number, 0 and \<open>clean\<close>;
  with \<open>+n\<close>, \<open>n\<close> a string of digits, it is the number, the value of \<open>n\<close> and
  \<open>dirty\<close>; with \<open>+s\<close>, \<open>s\<close> one of \<open>dnf\<close>, \<open>dsq\<close>, \<open>off\<close>, \<open>out\<close>, it is the
  number, 0 and \<open>s\<close>.
\<close>

theorem parse_time_suffix_rule:
  assumes "list_all is_space ws1" "list_all is_space ws2"
    and "ip \<noteq> []" "list_all is_digit ip" "fp \<noteq> []" "list_all is_digit fp"
  shows "parse_time (Some (ws1 @ ip @ ''.'' @ fp @ ws2)) =
           Some (of_nat (dec_val ip) + of_nat (dec_val fp) / 10 ^ length fp, 0, ''clean'')
       \<and> (n \<noteq> [] \<and> list_all is_digit n \<longrightarrow>
            parse_time (Some (ws1 @ ip @ ''.'' @ fp @ ''+'' @ n @ ws2)) =
              Some (of_nat (dec_val ip) + of_nat (dec_val fp) / 10 ^ length fp,
                    int (dec_val n), ''dirty''))
       \<and> (s \<in> {''dnf'', ''dsq'', ''off'', ''out''} \<longrightarrow>
            parse_time (Some (ws1 @ ip @ ''.'' @ fp @ ''+'' @ s @ ws2)) =
              Some (of_nat (dec_val ip) + of_nat (dec_val fp) / 10 ^ length fp, 0, s))"
proof (intro conjI impI)
  have pf: "py_float (ip @ CHR ''.'' # fp) =
      of_nat (dec_val ip) + of_nat (dec_val fp) / 10 ^ length fp"
    using py_float_number [OF assms(4), of fp] by simp
  {
    have m: "re_time (ws1 @ ip @ CHR ''.'' # fp @ ws2) = Some (ip @ CHR ''.'' # fp, None)"
      using re_time_plain [OF assms] by simp
    show "parse_time (Some (ws1 @ ip @ ''.'' @ fp @ ws2)) =
          Some (of_nat (dec_val ip) + of_nat (dec_val fp) / 10 ^ length fp, 0, ''clean'')"
      by (simp add: parse_time_def parse_time_try_def m pf)
  next
    assume n: "n \<noteq> [] \<and> list_all is_digit n"
    then have l: "is_digit (last n)" by (simp add: list_all_iff)
    have nl: "newline \<notin> set n" using n digit_facts(7) by (auto simp: list_all_iff)
    have hd: "is_digit (hd n)" using n by (cases n) auto
    have tok: "n \<notin> set [''dnf'', ''dsq'', ''off'', ''out'']"
      using hd by (auto simp: is_digit_def)
    have "re_time (ws1 @ ip @ ''.'' @ fp @ ''+'' @ n @ ws2) = Some (ip @ ''.'' @ fp, Some n)"
      using n l nl by (intro re_time_penalty assms) (simp_all add: digit_facts)
    then have m: "re_time (ws1 @ ip @ CHR ''.'' # fp @ CHR ''+'' # n @ ws2) =
        Some (ip @ CHR ''.'' # fp, Some n)"
      by simp
    show "parse_time (Some (ws1 @ ip @ ''.'' @ fp @ ''+'' @ n @ ws2)) =
          Some (of_nat (dec_val ip) + of_nat (dec_val fp) / 10 ^ length fp,
                int (dec_val n), ''dirty'')"
      using n tok py_int_digits [of n]
      by (simp add: parse_time_def parse_time_try_def m pf del: set_simps)
  next
    assume s: "s \<in> {''dnf'', ''dsq'', ''off'', ''out''}"
    then have p: "s \<noteq> []" "\<not> is_space (last s)" "newline \<notin> set s"
      by (auto simp: is_space_def newline_def)
    have "re_time (ws1 @ ip @ ''.'' @ fp @ ''+'' @ s @ ws2) = Some (ip @ ''.'' @ fp, Some s)"
      by (intro re_time_penalty assms p)
    then have m: "re_time (ws1 @ ip @ CHR ''.'' # fp @ CHR ''+'' # s @ ws2) =
        Some (ip @ CHR ''.'' # fp, Some s)"
      by simp
    have tok: "s \<in> set [''dnf'', ''dsq'', ''off'', ''out'']" using s by simp
    show "parse_time (Some (ws1 @ ip @ ''.'' @ fp @ ''+'' @ s @ ws2)) =
          Some (of_nat (dec_val ip) + of_nat (dec_val fp) / 10 ^ length fp, 0, s)"
      using tok by (simp add: parse_time_def parse_time_try_def m pf del: set_simps)
  }
qed

theorem parse_time_suffix_rule_witness:
  "parse_time (Some ''45.123'') = Some (45123 / 1000, 0, ''clean'')
   \<and> parse_time (Some ''45.123+2'') = Some (45123 / 1000, 2, ''dirty'')
   \<and> parse_time (Some ''45.123+dnf'') = Some (45123 / 1000, 0, ''dnf'')"
proof -
  have d: "list_all is_space []" "''45'' \<noteq> []" "list_all is_digit ''45''"
    "''123'' \<noteq> []" "list_all is_digit ''123''" "''2'' \<noteq> [] \<and> list_all is_digit ''2''"
    "''dnf'' \<in> {''dnf'', ''dsq'', ''off'', ''out''}"
    by (simp_all add: is_digit_def)
  have v: "dec_val ''45'' = 45" "dec_val ''123'' = 123" "dec_val ''2'' = 2"
    by (simp_all add: dec_val_def digit_val_def)
  show ?thesis
    using parse_time_suffix_rule [OF d(1) d(1) d(2) d(3) d(4) d(5), of "''2''" "''dnf''"] d(6) d(7)
    by (simp add: v)
qed

text \<open>
  Claim C4. \<open>parse_time\<close> returns \<open>None\<close>, and raises nothing (its result is a plain
  option: the \<open>ValueError\<close> of \<open>int()\<close> is caught), on \<open>None\<close>, on the empty string,
  on every string that is not a time string, and in particular on a number followed by
  \<open>+\<close> and a suffix that is neither a status token nor an integer.
\<close>

theorem parse_time_null:
  "parse_time None = None
   \<and> parse_time (Some []) = None
   \<and> (\<not> time_string s \<longrightarrow> parse_time (Some s) = None)
   \<and> (list_all is_space ws1 \<and> list_all is_space ws2
        \<and> ip \<noteq> [] \<and> list_all is_digit ip \<and> fp \<noteq> [] \<and> list_all is_digit fp
        \<and> p \<noteq> [] \<and> \<not> is_space (last p) \<and> newline \<notin> set p
        \<and> p \<notin> {''dnf'', ''dsq'', ''off'', ''out''} \<and> py_int p = None
      \<longrightarrow> parse_time (Some (ws1 @ ip @ ''.'' @ fp @ ''+'' @ p @ ws2)) = None)"
proof (intro conjI impI)
  show "parse_time None = None"
    by (simp add: parse_time_def parse_time_try_def)
  show "parse_time (Some []) = None"
    by (simp add: parse_time_def parse_time_try_def re_time_def)
  {
    assume "\<not> time_string s"
    then show "parse_time (Some s) = None"
      using parse_time_Some_time_string [of s] by (cases "parse_time (Some s)") auto
  next
    assume a: "list_all is_space ws1 \<and> list_all is_space ws2
        \<and> ip \<noteq> [] \<and> list_all is_digit ip \<and> fp \<noteq> [] \<and> list_all is_digit fp
        \<and> p \<noteq> [] \<and> \<not> is_space (last p) \<and> newline \<notin> set p
        \<and> p \<notin> {''dnf'', ''dsq'', ''off'', ''out''} \<and> py_int p = None"
    then have "re_time (ws1 @ ip @ ''.'' @ fp @ ''+'' @ p @ ws2) = Some (ip @ ''.'' @ fp, Some p)"
      by (intro re_time_penalty) simp_all
    then have m: "re_time (ws1 @ ip @ CHR ''.'' # fp @ CHR ''+'' # p @ ws2) =
        Some (ip @ CHR ''.'' # fp, Some p)"
      by simp
    have tok: "p \<notin> set [''dnf'', ''dsq'', ''off'', ''out'']" using a by simp
    show "parse_time (Some (ws1 @ ip @ ''.'' @ fp @ ''+'' @ p @ ws2)) = None"
      using a tok by (simp add: parse_time_def parse_time_try_def m del: set_simps)
  }
qed

theorem parse_time_null_witness:
  "\<not> time_string ''12'' \<and> parse_time (Some ''12'') = None
   \<and> ''x'' \<notin> {''dnf'', ''dsq'', ''off'', ''out''} \<and> py_int ''x'' = None
   \<and> parse_time (Some ''12.5+x'') = None"
proof -
  have n: "\<not> time_string ''12''"
    unfolding time_string_def
  proof (intro notI, elim exE conjE)
    fix ws1 ip fp sfx ws2
    assume "''12'' = ws1 @ ip @ ''.'' @ fp @ sfx @ ws2"
    then have "set ''12'' = set (ws1 @ ip @ ''.'' @ fp @ sfx @ ws2)" by (rule arg_cong)
    then show False by auto
  qed
  have d: "list_all is_space []" "''12'' \<noteq> []" "list_all is_digit ''12''"
    "''5'' \<noteq> []" "list_all is_digit ''5''" "''x'' \<noteq> []" "\<not> is_space (last ''x'')"
    "newline \<notin> set ''x''" "''x'' \<notin> {''dnf'', ''dsq'', ''off'', ''out''}"
    "py_int ''x'' = None"
    by (simp_all add: is_digit_def is_space_def newline_def py_int_def is_int_space_def)
  show ?thesis
    using n d parse_time_null [of "''12''" "[]" "[]" "''12''" "''5''" "''x''"]
    by simp
qed

text \<open>
  Claim C5, as amended. Every triple \<open>parse_time\<close> returns has a non-negative
  \<open>raw_time\<close>, a status among \<open>clean\<close>, \<open>dirty\<close>, \<open>dnf\<close>, \<open>dsq\<close>, \<open>off\<close>,
  \<open>out\<close>, a penalty count that is nonzero only with status \<open>dirty\<close>, and penalty count
  0 with the four override statuses. The penalty count is an integer, and it is negative
  when the suffix is a negative integer literal.
\<close>

theorem parse_time_invariant:
  assumes "parse_time raw_value = Some (raw_time, penalty_count, status)"
  shows "0 \<le> raw_time
       \<and> status \<in> {''clean'', ''dirty'', ''dnf'', ''dsq'', ''off'', ''out''}
       \<and> (penalty_count \<noteq> 0 \<longrightarrow> status = ''dirty'')
       \<and> (status \<in> {''dnf'', ''dsq'', ''off'', ''out''} \<longrightarrow> penalty_count = 0)"
proof -
  have nn: "0 \<le> py_float rt" for rt
    by (simp add: py_float_def Let_def)
  show ?thesis
    using assms nn unfolding parse_time_def parse_time_try_def
    by (auto simp: Let_def split: option.splits if_splits sum.splits)
qed

theorem parse_time_invariant_witness:
  "parse_time (Some ''12.5+2'') = Some (25 / 2, 2, ''dirty'')
   \<and> (0::rat) \<le> 25 / 2
   \<and> ''dirty'' \<in> {''clean'', ''dirty'', ''dnf'', ''dsq'', ''off'', ''out''}"
proof -
  have e: "parse_time (Some ''12.5+2'') = Some (25 / 2, 2, ''dirty'')"
    by (simp add: parse_time_def parse_time_try_def re_time_def py_float_def py_int_def
        is_space_def is_digit_def is_int_space_def dec_val_def digit_val_def rstrip_def
        newline_def)
  show ?thesis using parse_time_invariant [OF e] e by simp
qed

text \<open>
  Claim C5 as stated fails: \<open>int()\<close> accepts a sign, so the suffix \<open>-3\<close> gives the
  penalty count \<open>-3\<close>.
\<close>

theorem parse_time_negative_penalty:
  "parse_time (Some ''1.0+-3'') = Some (1, - 3, ''dirty'') \<and> \<not> (0::int) \<le> - 3"
  by (simp add: parse_time_def parse_time_try_def re_time_def py_float_def py_int_def
      is_space_def is_digit_def is_int_space_def dec_val_def digit_val_def rstrip_def
      newline_def)

section \<open>Exceptions end the parse\<close>

lemma cells_loop_abort:
  assumes "hc \<in> set hcs" "\<And>acc. isl (cell_step acc hc)"
  shows "isl (cells_loop acc hcs)"
  using assms(1)
proof (induction hcs arbitrary: acc)
  case Nil
  then show ?case by simp
next
  case (Cons x xs)
  show ?case
  proof (cases "cell_step acc x")
    case (Inl e)
    then show ?thesis by simp
  next
    case (Inr acc')
    have "x \<noteq> hc" using Inr assms(2) [of acc] by auto
    with Cons.prems have "hc \<in> set xs" by simp
    from Cons.IH [OF this, of acc'] show ?thesis using Inr by simp
  qed
qed

lemma row_step_abort:
  assumes "isl (cells_loop ([], []) (zip headers row_data))"
  shows "isl (row_step headers multirow st row_data)"
  using assms unfolding row_step_def by (auto split: sum.splits)

lemma rows_loop_abort:
  assumes "row_data \<in> set rows" "\<And>st. isl (row_step headers multirow st row_data)"
  shows "isl (rows_loop headers multirow st rows)"
  using assms(1)
proof (induction rows arbitrary: st)
  case Nil
  then show ?case by simp
next
  case (Cons x xs)
  show ?case
  proof (cases "row_step headers multirow st x")
    case (Inl e)
    then show ?thesis by simp
  next
    case (Inr st')
    have "x \<noteq> row_data" using Inr assms(2) [of st] by auto
    with Cons.prems have "row_data \<in> set xs" by simp
    from Cons.IH [OF this, of st'] show ?thesis using Inr by simp
  qed
qed

lemma parse_abort:
  assumes "headers_of (th_strings header_row) = Inr headers"
    and "isl (rows_loop headers (detect_multirow headers) ([], None, None)
               (map td_cells result_rows))"
  shows "isl (parse_axware_live_results (header_row # result_rows))"
  using assms unfolding parse_axware_live_results_def
  by (auto simp: Let_def split: sum.splits)

lemma bad_cell_aborts:
  assumes h: "headers_of (th_strings header_row) = Inr headers"
    and r: "row \<in> set result_rows"
    and c: "hc \<in> set (zip headers (td_cells row))"
    and s: "\<And>acc. isl (cell_step acc hc)"
  shows "isl (parse_axware_live_results (header_row # result_rows))"
proof -
  have "isl (cells_loop ([], []) (zip headers (td_cells row)))"
    using c s by (rule cells_loop_abort)
  then have "isl (row_step headers (detect_multirow headers) st (td_cells row))" for st
    by (rule row_step_abort)
  moreover have "td_cells row \<in> set (map td_cells result_rows)" using r by simp
  ultimately have "isl (rows_loop headers (detect_multirow headers) ([], None, None)
      (map td_cells result_rows))"
    by (intro rows_loop_abort [of "td_cells row"])
  with h show ?thesis by (rule parse_abort)
qed

text \<open>
  Claim C6. Under the header \<open>Pos\<close> the value of a cell is \<open>int()\<close> of its text
  without the characters \<open>T\<close>: \<open>3\<close> gives 3, \<open>4T\<close> gives 4, \<open>abc\<close> raises
  \<open>ValueError\<close>. When some result row has under \<open>Pos\<close> a cell whose stripped text,
  without \<open>T\<close>, is not an integer, the parse of the whole document ends in an exception.
\<close>

theorem pos_cell:
  "cell_value ''Pos'' text =
     (case py_int (filter (\<lambda>c. c \<noteq> CHR ''T'') text) of
        None \<Rightarrow> Inl ValueError
      | Some n \<Rightarrow> Inr (VInt n))
   \<and> cell_value ''Pos'' ''3'' = Inr (VInt 3)
   \<and> cell_value ''Pos'' ''4T'' = Inr (VInt 4)
   \<and> cell_value ''Pos'' ''abc'' = Inl ValueError
   \<and> (headers_of (th_strings header_row) = Inr headers
        \<and> row \<in> set result_rows
        \<and> (''Pos'', c) \<in> set (zip headers (td_cells row))
        \<and> py_int (filter (\<lambda>c. c \<noteq> CHR ''T'') (py_strip (cell_text c))) = None
      \<longrightarrow> isl (parse_axware_live_results (header_row # result_rows)))"
proof (intro conjI impI)
  show "cell_value ''Pos'' text =
     (case py_int (filter (\<lambda>c. c \<noteq> CHR ''T'') text) of
        None \<Rightarrow> Inl ValueError
      | Some n \<Rightarrow> Inr (VInt n))"
    by (simp add: cell_value_def)
  show "cell_value ''Pos'' ''3'' = Inr (VInt 3)"
    by (simp add: cell_value_def py_int_def is_int_space_def is_digit_def dec_val_def
        digit_val_def)
  show "cell_value ''Pos'' ''4T'' = Inr (VInt 4)"
    by (simp add: cell_value_def py_int_def is_int_space_def is_digit_def dec_val_def
        digit_val_def)
  show "cell_value ''Pos'' ''abc'' = Inl ValueError"
    by (simp add: cell_value_def py_int_def is_int_space_def is_digit_def)
next
  assume a: "headers_of (th_strings header_row) = Inr headers
        \<and> row \<in> set result_rows
        \<and> (''Pos'', c) \<in> set (zip headers (td_cells row))
        \<and> py_int (filter (\<lambda>c. c \<noteq> CHR ''T'') (py_strip (cell_text c))) = None"
  then have "isl (cell_step acc (''Pos'', c))" for acc
    by (cases acc) (simp add: cell_step_def cell_value_def)
  with a show "isl (parse_axware_live_results (header_row # result_rows))"
    by (intro bad_cell_aborts [of header_row headers row result_rows "(''Pos'', c)"]) auto
qed

theorem pos_cell_witness:
  "headers_of [Some ''Pos'', Some ''Driver''] = Inr [''Pos'', ''Driver'']
   \<and> (''Pos'', \<lparr>cell_text = ''abc'', valign = False\<rparr>)
        \<in> set (zip [''Pos'', ''Driver'']
             [\<lparr>cell_text = ''abc'', valign = False\<rparr>, \<lparr>cell_text = ''Bob'', valign = False\<rparr>])
   \<and> py_int (filter (\<lambda>c. c \<noteq> CHR ''T'') (py_strip ''abc'')) = None
   \<and> isl (parse_axware_live_results
        [\<lparr>th_strings = [Some ''Pos'', Some ''Driver''], td_cells = []\<rparr>,
         \<lparr>th_strings = [],
          td_cells = [\<lparr>cell_text = ''abc'', valign = False\<rparr>,
                      \<lparr>cell_text = ''Bob'', valign = False\<rparr>]\<rparr>])"
proof -
  have h: "headers_of [Some ''Pos'', Some ''Driver''] = Inr [''Pos'', ''Driver'']"
    by (simp add: py_strip_def rstrip_def is_space_def)
  have p: "py_int (filter (\<lambda>c. c \<noteq> CHR ''T'') (py_strip ''abc'')) = None"
    by (simp add: py_strip_def rstrip_def is_space_def py_int_def is_int_space_def is_digit_def)
  show ?thesis
    using h p
      pos_cell [of "''x''" "\<lparr>th_strings = [Some ''Pos'', Some ''Driver''], td_cells = []\<rparr>"
        "[''Pos'', ''Driver'']"
        "\<lparr>th_strings = [],
          td_cells = [\<lparr>cell_text = ''abc'', valign = False\<rparr>,
                      \<lparr>cell_text = ''Bob'', valign = False\<rparr>]\<rparr>"
        "[\<lparr>th_strings = [],
          td_cells = [\<lparr>cell_text = ''abc'', valign = False\<rparr>,
                      \<lparr>cell_text = ''Bob'', valign = False\<rparr>]\<rparr>]"
        "\<lparr>cell_text = ''abc'', valign = False\<rparr>"]
    by simp
qed

text \<open>Every header of that shape is matched by \<open>_re_run\<close>; the converse fails,
  since the dots of the pattern match any two characters.\<close>

lemma run_shape_matched:
  assumes "run_shape header"
  shows "re_run header \<noteq> None"
proof -
  define s2 where "s2 = dropWhile is_space (drop 3 (dropWhile is_space header))"
  define ds where "ds = takeWhile is_digit s2"
  define r where "r = dropWhile is_digit s2"
  define t where "t = dropWhile is_space r"
  from assms have run: "take 3 (dropWhile is_space header) = ''Run''" and ds: "ds \<noteq> []"
    and tl: "list_all is_space r \<or> (take 2 t = ''..'' \<and> list_all is_space (drop 2 t))"
    unfolding run_shape_def Let_def s2_def ds_def r_def t_def by auto
  have tail: "re_run_tail r"
  proof (cases "list_all is_space r")
    case True
    then show ?thesis by (simp add: re_run_tail_def)
  next
    case False
    with tl have d: "take 2 t = ''..''" and w: "list_all is_space (drop 2 t)" by auto
    define i where "i = length (takeWhile is_space r)"
    have "drop i r = t"
      unfolding i_def t_def by (simp add: dropWhile_eq_drop)
    moreover have "t = CHR ''.'' # CHR ''.'' # drop 2 t"
      using append_take_drop_id [of 2 t] unfolding d by simp
    ultimately have e: "drop i r = CHR ''.'' # CHR ''.'' # drop 2 t" by simp
    have "case drop i r of
        a # b # w \<Rightarrow> a \<noteq> newline \<and> b \<noteq> newline \<and> list_all is_space w
      | _ \<Rightarrow> False"
      unfolding e using w by (simp add: newline_def)
    moreover have "i \<in> set [0..<Suc (length (takeWhile is_space r))]"
      unfolding i_def by simp
    ultimately show ?thesis
      unfolding re_run_tail_def list_ex_iff by blast
  qed
  have "length ds \<in> set (rev [1..<Suc (length ds)])" using ds by (cases ds) auto
  moreover have "re_run_tail (drop (length ds) ds @ r)" using tail by simp
  ultimately have "List.find (\<lambda>j. re_run_tail (drop j ds @ r)) (rev [1..<Suc (length ds)]) \<noteq> None"
    unfolding find_None_iff by blast
  then show ?thesis
    using run unfolding re_run_def Let_def s2_def [symmetric] ds_def [symmetric] r_def [symmetric]
    by simp
qed

text \<open>
  Claim C9, as amended. A header that contains \<open>Run\<close> and that \<open>_re_run\<close> does not
  match, such as \<open>Best Run\<close>: when some result row has under it a cell with
  \<open>valign\<close> whose stripped text is a valid time, the parse of the whole document ends
  in an exception (\<open>match\<close> gives \<open>None\<close>, and \<open>group\<close> on it raises). The
  pattern's two dots are not escaped, so it matches \<open>Run\<close>, digits and any two
  characters that are no line feeds: such a header does not raise.
\<close>

theorem unmatched_run_header:
  "py_in ''Run'' ''Best Run'' \<and> re_run ''Best Run'' = None
   \<and> (headers_of (th_strings header_row) = Inr headers
        \<and> row \<in> set result_rows
        \<and> (header, c) \<in> set (zip headers (td_cells row))
        \<and> py_in ''Run'' header \<and> re_run header = None
        \<and> valign c \<and> parse_time (Some (py_strip (cell_text c))) \<noteq> None
      \<longrightarrow> isl (parse_axware_live_results (header_row # result_rows)))"
proof (intro conjI impI)
  show "py_in ''Run'' ''Best Run''" by simp
  show "re_run ''Best Run'' = None" by (simp add: re_run_def is_space_def)
next
  assume a: "headers_of (th_strings header_row) = Inr headers
        \<and> row \<in> set result_rows
        \<and> (header, c) \<in> set (zip headers (td_cells row))
        \<and> py_in ''Run'' header \<and> re_run header = None
        \<and> valign c \<and> parse_time (Some (py_strip (cell_text c))) \<noteq> None"
  then have "isl (cell_step acc (header, c))" for acc
    by (cases acc) (auto simp: cell_step_def cell_value_def)
  with a show "isl (parse_axware_live_results (header_row # result_rows))"
    by (intro bad_cell_aborts [of header_row headers row result_rows "(header, c)"]) auto
qed

theorem unmatched_run_header_witness:
  "headers_of [Some ''Pos'', Some ''Best Run''] = Inr [''Pos'', ''Best Run'']
   \<and> parse_time (Some (py_strip ''45.123'')) \<noteq> None
   \<and> isl (parse_axware_live_results
        [\<lparr>th_strings = [Some ''Pos'', Some ''Best Run''], td_cells = []\<rparr>,
         \<lparr>th_strings = [],
          td_cells = [\<lparr>cell_text = ''1'', valign = False\<rparr>,
                      \<lparr>cell_text = ''45.123'', valign = True\<rparr>]\<rparr>])"
proof -
  have h: "headers_of [Some ''Pos'', Some ''Best Run''] = Inr [''Pos'', ''Best Run'']"
    by (simp add: py_strip_def rstrip_def is_space_def)
  have p: "parse_time (Some (py_strip ''45.123'')) \<noteq> None"
    by (simp add: py_strip_def rstrip_def is_space_def parse_time_def parse_time_try_def
        re_time_def is_digit_def)
  have r: "py_in ''Run'' ''Best Run''" "re_run ''Best Run'' = None"
    by (simp_all add: re_run_def is_space_def)
  show ?thesis
    using h p r
      unmatched_run_header [of
        "\<lparr>th_strings = [Some ''Pos'', Some ''Best Run''], td_cells = []\<rparr>"
        "[''Pos'', ''Best Run'']"
        "\<lparr>th_strings = [],
          td_cells = [\<lparr>cell_text = ''1'', valign = False\<rparr>,
                      \<lparr>cell_text = ''45.123'', valign = True\<rparr>]\<rparr>"
        "[\<lparr>th_strings = [],
          td_cells = [\<lparr>cell_text = ''1'', valign = False\<rparr>,
                      \<lparr>cell_text = ''45.123'', valign = True\<rparr>]\<rparr>]"
        "''Best Run''"
        "\<lparr>cell_text = ''45.123'', valign = True\<rparr>"]
    by simp
qed

text \<open>
  Claim C10. In the multi-row layout a document without result rows ends in
  \<open>TypeError\<close>, since the final flush stores into \<open>current_entry\<close> without testing
  it; and a document whose first result row has an empty first cell ends in an
  exception, which is that \<open>TypeError\<close> when the cells of the row raise nothing.
\<close>

theorem multirow_no_open_entry:
  assumes "headers_of (th_strings header_row) = Inr headers"
    and "detect_multirow headers"
  shows "parse_axware_live_results [header_row] = Inl TypeError
       \<and> (td_cells row = c # cs \<and> cell_text c = [] \<longrightarrow>
            isl (parse_axware_live_results (header_row # row # rest))
            \<and> (\<not> isl (cells_loop ([], []) (zip headers (td_cells row))) \<longrightarrow>
                 parse_axware_live_results (header_row # row # rest) = Inl TypeError))"
proof (intro conjI impI)
  show "parse_axware_live_results [header_row] = Inl TypeError"
    using assms by (simp add: parse_axware_live_results_def)
next
  assume a: "td_cells row = c # cs \<and> cell_text c = []"
  have s: "row_step headers True ([], None, None) (td_cells row) =
      (case cells_loop ([], []) (zip headers (td_cells row)) of
         Inl e \<Rightarrow> Inl e | Inr x \<Rightarrow> Inl TypeError)"
    using a by (simp add: row_step_def continue_entry_def split: sum.splits prod.splits)
  {
    show "isl (parse_axware_live_results (header_row # row # rest))"
      using assms s by (simp add: parse_axware_live_results_def split: sum.splits)
  next
    assume "\<not> isl (cells_loop ([], []) (zip headers (td_cells row)))"
    then show "parse_axware_live_results (header_row # row # rest) = Inl TypeError"
      using assms s by (auto simp: parse_axware_live_results_def split: sum.splits)
  }
qed

section \<open>What the cell loop returns\<close>

lemma rows_loop_append:
  "rows_loop headers multirow st (xs @ ys) =
     (case rows_loop headers multirow st xs of
        Inl e \<Rightarrow> Inl e
      | Inr st' \<Rightarrow> rows_loop headers multirow st' ys)"
  by (induction xs arbitrary: st) (auto split: sum.splits)

lemma cell_step_keys:
  assumes "cell_step (e0, r0) (h, c) = Inr (e, r)"
  shows "fst ` set e \<subseteq> insert h (fst ` set e0)"
proof -
  have "e = e0 \<or> (\<exists>v. e = AList.update h v e0)"
    using assms unfolding cell_step_def
    by (auto simp: Let_def split: sum.splits if_splits option.splits)
  then show ?thesis
    by (elim disjE exE) (simp_all add: dom_update subset_insertI)
qed

lemma cells_loop_keys:
  assumes "cells_loop (e0, r0) hcs = Inr (e, r)"
  shows "fst ` set e \<subseteq> fst ` set e0 \<union> fst ` set hcs"
  using assms
proof (induction hcs arbitrary: e0 r0)
  case Nil
  then show ?case by simp
next
  case (Cons hc hcs)
  obtain h c where hc: "hc = (h, c)" by (cases hc)
  from Cons.prems obtain e1 r1 where
    s: "cell_step (e0, r0) (h, c) = Inr (e1, r1)" and l: "cells_loop (e1, r1) hcs = Inr (e, r)"
    unfolding hc by (auto split: sum.splits)
  from Cons.IH [OF l] cell_step_keys [OF s] show ?case unfolding hc by auto
qed

lemma cell_step_distinct:
  assumes "cell_step (e0, r0) (h, c) = Inr (e, r)" "distinct (map fst e0)"
  shows "distinct (map fst e)"
proof -
  have "e = e0 \<or> (\<exists>v. e = AList.update h v e0)"
    using assms(1) unfolding cell_step_def
    by (auto simp: Let_def split: sum.splits if_splits option.splits)
  then show ?thesis
    using assms(2) by (elim disjE exE) (simp_all add: distinct_update)
qed

lemma cells_loop_distinct:
  assumes "cells_loop (e0, r0) hcs = Inr (e, r)" "distinct (map fst e0)"
  shows "distinct (map fst e)"
  using assms
proof (induction hcs arbitrary: e0 r0)
  case Nil
  then show ?case by simp
next
  case (Cons hc hcs)
  obtain h c where hc: "hc = (h, c)" by (cases hc)
  from Cons.prems obtain e1 r1 where
    s: "cell_step (e0, r0) (h, c) = Inr (e1, r1)" and l: "cells_loop (e1, r1) hcs = Inr (e, r)"
    unfolding hc by (auto split: sum.splits)
  from Cons.IH [OF l cell_step_distinct [OF s Cons.prems(2)]] show ?case .
qed

lemma cell_step_runs:
  assumes "cell_step (e0, r0) (h, c) = Inr (e, r)"
  shows "r = r0 @ (if py_in ''Run'' h \<and> valign c
                   then (case parse_time (Some (py_strip (cell_text c))) of
                           None \<Rightarrow> [] | Some x \<Rightarrow> [VRun x])
                   else [])"
  using assms unfolding cell_step_def cell_value_def
  by (auto simp: Let_def split: sum.splits if_splits option.splits)

lemma cells_loop_runs:
  assumes "cells_loop (e0, r0) (zip headers row_data) = Inr (e, r)"
  shows "r = r0 @ run_cells headers row_data"
proof -
  have "cells_loop (e0, r0) hcs = Inr (e, r) \<Longrightarrow>
      r = r0 @ concat (map (\<lambda>(header, c).
                if py_in ''Run'' header \<and> valign c
                then (case parse_time (Some (py_strip (cell_text c))) of
                        None \<Rightarrow> [] | Some r \<Rightarrow> [VRun r])
                else []) hcs)" for hcs
  proof (induction hcs arbitrary: e0 r0)
    case Nil
    then show ?case by simp
  next
    case (Cons hc hcs)
    obtain h c where hc: "hc = (h, c)" by (cases hc)
    from Cons.prems obtain e1 r1 where
      s: "cell_step (e0, r0) (h, c) = Inr (e1, r1)" and l: "cells_loop (e1, r1) hcs = Inr (e, r)"
      unfolding hc by (auto split: sum.splits)
    from Cons.IH [OF l] cell_step_runs [OF s] show ?case unfolding hc by simp
  qed
  from this [OF assms] show ?thesis unfolding run_cells_def .
qed

lemma update_fresh: "k \<notin> fst ` set al \<Longrightarrow> AList.update k v al = al @ [(k, v)]"
  by (induction al) auto

lemma dict_update_distinct:
  assumes "distinct (map fst e)" "fst ` set d \<inter> fst ` set e = {}"
  shows "dict_update d e = d @ e"
  using assms
proof (induction e arbitrary: d)
  case Nil
  then show ?case by (simp add: dict_update_def)
next
  case (Cons kv e)
  obtain k v where kv: "kv = (k, v)" by (cases kv)
  have f: "k \<notin> fst ` set d" using Cons.prems(2) kv by auto
  have "dict_update d (kv # e) = dict_update (d @ [(k, v)]) e"
    unfolding dict_update_def kv by (simp add: update_fresh [OF f])
  also have "\<dots> = (d @ [(k, v)]) @ e"
    using Cons.prems kv by (intro Cons.IH) auto
  finally show ?case by (simp add: kv)
qed

section \<open>Rows and entries\<close>

text \<open>
  Claim C8, as amended. In the multi-row layout, when a continuation row whose cells
  raise nothing has no cell under a header \<open>Total\<close>, and the open entry has no
  \<open>Diff.\<close> yet, the parse does not complete: \<open>entry["Total"]\<close> raises \<open>KeyError\<close>
  and the whole document is lost.
\<close>

theorem missing_total_raises:
  assumes h: "headers_of (th_strings header_row) = Inr headers"
    and m: "detect_multirow headers"
    and b: "rows_loop headers True ([], None, None) (map td_cells before) =
              Inr (results, Some current_entry, current_runs)"
    and nd: "''Diff.'' \<notin> fst ` set current_entry"
    and r: "td_cells row = c # cs" "cell_text c = []"
    and ok: "\<not> isl (cells_loop ([], []) (zip headers (td_cells row)))"
    and nt: "''Total'' \<notin> fst ` set (zip headers (td_cells row))"
  shows "parse_axware_live_results (header_row # before @ row # rest) = Inl KeyError"
proof -
  from ok obtain entry runs where
    cl: "cells_loop ([], []) (zip headers (td_cells row)) = Inr (entry, runs)"
    by (cases "cells_loop ([], []) (zip headers (td_cells row))") auto
  from cells_loop_keys [OF cl] nt have "''Total'' \<notin> fst ` set entry" by auto
  then have t: "map_of entry ''Total'' = None" by (simp add: map_of_eq_None_iff)
  have s: "row_step headers True (results, Some current_entry, current_runs) (td_cells row) =
      Inl KeyError"
    using cl t nd r by (simp add: row_step_def continue_entry_def)
  have "rows_loop headers True ([], None, None) (map td_cells (before @ row # rest)) =
      Inl KeyError"
    by (simp add: rows_loop_append b s)
  then show ?thesis
    using h m by (simp add: parse_axware_live_results_def)
qed

text \<open>
  Claim C2, as amended. In the multi-row layout, a primary row (first cell not empty)
  followed by a continuation row (first cell empty), when no cell of either row raises
  and the continuation row holds a \<open>Total\<close>, give one entry. Its \<open>Diff.\<close> is the
  continuation row's \<open>Total\<close>, unless the primary row already gave a \<open>Diff.\<close>, which
  is then kept; its \<open>Runs\<close> are the run cells of the primary row followed by those of the
  continuation row; its other fields are those of the primary row. With three and two
  run cells and the \<open>Total\<close> \<open>-2.345\<close> this is five runs and \<open>Diff.\<close> \<open>-2.345\<close>.
  That no cell raises cannot be dropped: under a first header \<open>Pos\<close> the empty first
  cell of the continuation row makes \<open>int()\<close> raise.
\<close>

theorem multirow_stitching:
  assumes h: "headers_of (th_strings header_row) = Inr headers"
    and m: "detect_multirow headers"
    and p: "td_cells primary = c1 # cs1" "cell_text c1 \<noteq> []"
    and c: "td_cells continuation = c2 # cs2" "cell_text c2 = []"
    and ok1: "cells_loop ([], []) (zip headers (td_cells primary)) = Inr (e1, r1)"
    and ok2: "cells_loop ([], []) (zip headers (td_cells continuation)) = Inr (e2, r2)"
    and t: "map_of e2 ''Total'' = Some diff_value"
  shows "\<exists>entry.
           parse_axware_live_results [header_row, primary, continuation] = Inr [entry]
         \<and> map_of entry ''Diff.'' =
             (if ''Diff.'' \<in> fst ` set e1 then map_of e1 ''Diff.'' else Some diff_value)
         \<and> map_of entry ''Runs'' =
             Some (VList (run_cells headers (td_cells primary) @
                          run_cells headers (td_cells continuation)))
         \<and> (\<forall>k. k \<noteq> ''Diff.'' \<and> k \<noteq> ''Runs'' \<longrightarrow> map_of entry k = map_of e1 k)"
proof -
  have d1: "distinct (map fst e1)" using cells_loop_distinct [OF ok1] by simp
  have u: "dict_update [] e1 = e1" using dict_update_distinct [OF d1, of "[]"] by simp
  have r1: "r1 = run_cells headers (td_cells primary)"
    using cells_loop_runs [OF ok1] by simp
  have r2: "r2 = run_cells headers (td_cells continuation)"
    using cells_loop_runs [OF ok2] by simp
  define ce where
    "ce = (if ''Diff.'' \<in> fst ` set e1 then e1 else AList.update ''Diff.'' diff_value e1)"
  have s1: "row_step headers True ([], None, None) (td_cells primary) =
      Inr ([], Some e1, Some r1)"
    using ok1 p by (simp add: row_step_def flush_previous_def u)
  have s2: "row_step headers True ([], Some e1, Some r1) (td_cells continuation) =
      Inr ([], Some ce, Some (r1 @ r2))"
    using ok2 c t by (simp add: row_step_def continue_entry_def ce_def)
  have res: "parse_axware_live_results [header_row, primary, continuation] =
      Inr [set_runs (Some (r1 @ r2)) ce]"
    using h m by (simp add: parse_axware_live_results_def s1 s2)
  have a: "map_of (set_runs (Some (r1 @ r2)) ce) ''Diff.'' =
      (if ''Diff.'' \<in> fst ` set e1 then map_of e1 ''Diff.'' else Some diff_value)"
    by (simp add: set_runs_def ce_def update_conv')
  have b: "map_of (set_runs (Some (r1 @ r2)) ce) ''Runs'' = Some (VList (r1 @ r2))"
    by (simp add: set_runs_def update_conv')
  have k: "k \<noteq> ''Diff.'' \<and> k \<noteq> ''Runs'' \<longrightarrow>
      map_of (set_runs (Some (r1 @ r2)) ce) k = map_of e1 k" for k
    by (simp add: set_runs_def ce_def update_conv')
  show ?thesis using res a b k unfolding r1 r2 by blast
qed

lemma single_row_loop:
  assumes "rows_loop headers False (results, None, None) rows = Inr (results', ce, cr)"
  shows "ce = None \<and> cr = None \<and> length results' = length results + length rows
       \<and> (\<forall>e\<in>set results'. e \<in> set results \<or> map_of e ''Runs'' = Some VNone)"
  using assms
proof (induction rows arbitrary: results)
  case Nil
  then show ?case by simp
next
  case (Cons row rows)
  from Cons.prems obtain entry runs where
    cl: "cells_loop ([], []) (zip headers row) = Inr (entry, runs)"
    and l: "rows_loop headers False (results @ [set_runs None entry], None, None) rows =
        Inr (results', ce, cr)"
    by (auto simp: row_step_def split: sum.splits)
  have "map_of (set_runs None entry) ''Runs'' = Some VNone"
    by (simp add: set_runs_def update_conv')
  with Cons.IH [OF l] show ?case by auto
qed

lemma single_row_layout:
  assumes "headers_of (th_strings header_row) = Inr headers"
    and "\<not> detect_multirow headers"
    and "parse_axware_live_results (header_row # result_rows) = Inr results"
  shows "length results = length result_rows
       \<and> (\<forall>e\<in>set results. map_of e ''Runs'' = Some VNone)"
proof -
  from assms obtain ce cr where
    "rows_loop headers False ([], None, None) (map td_cells result_rows) = Inr (results, ce, cr)"
    by (auto simp: parse_axware_live_results_def split: sum.splits)
  from single_row_loop [OF this] show ?thesis by simp
qed

section \<open>The properties on concrete documents\<close>

lemmas eval_defs =
  parse_axware_live_results_def row_step_def continue_entry_def flush_previous_def
  cell_step_def cell_value_def set_runs_def dict_update_def
  parse_time_def parse_time_try_def re_time_def re_run_def re_run_tail_def
  py_float_def py_int_def py_strip_def rstrip_def
  is_space_def is_digit_def is_int_space_def newline_def dec_val_def digit_val_def

text \<open>
  Claim C1. In the single-row layout every result row should give one entry whose
  \<open>Runs\<close> are the row's run cells. The parser gives one entry per row, but line 141
  stores \<open>current_runs\<close>, which this layout never assigns, and not the row's \<open>runs\<close>:
  on the document below, one row with two run cells, \<open>Runs\<close> is \<open>None\<close>.
\<close>

theorem single_row_runs_failing_input:
  "parse_axware_live_results
     [tr_th [''Pos'', ''Driver'', ''Run 1'', ''Run 2''],
      tr_td [td ''1'' False, td ''Bob'' False, td ''45.123'' True, td ''44.0+1'' True]]
   = Inr [[(''Pos'', VInt 1), (''Driver'', VStr ''Bob''), (''Runs'', VNone)]]
   \<and> run_cells [''Pos'', ''Driver'', ''Run 1'', ''Run 2'']
        [td ''1'' False, td ''Bob'' False, td ''45.123'' True, td ''44.0+1'' True]
      = [VRun (45123 / 1000, 0, ''clean''), VRun (44, 1, ''dirty'')]"
  by (simp add: eval_defs run_cells_def)

text \<open>
  Claim C8 as stated fails: with the column relabelled \<open>Time\<close> the parse ends in
  \<open>KeyError\<close> instead of completing with \<open>Diff.\<close> absent.
\<close>

theorem missing_total_counterexample:
  "parse_axware_live_results
     [tr_th [''Car'', ''Driver'', ''Time'', ''Run 1..'', ''Run 2..''],
      tr_td [td ''7'' False, td ''Bob'' False, td ''45.123'' False,
             td ''45.123'' True, td ''44.0+1'' True],
      tr_td [td '''' False, td '''' False, td ''-2.345'' False,
             td ''47.5'' True, td '''' False]]
   = Inl KeyError"
  by (simp add: eval_defs)

theorem missing_total_raises_witness:
  "detect_multirow [''Car'', ''Driver'', ''Time'', ''Run 1..'']
   \<and> ''Total'' \<notin> fst ` set (zip [''Car'', ''Driver'', ''Time'', ''Run 1..'']
         [td '''' False, td '''' False, td ''-0.5'' False, td ''47.5'' True])
   \<and> parse_axware_live_results
        [tr_th [''Car'', ''Driver'', ''Time'', ''Run 1..''],
         tr_td [td ''7'' False, td ''Bob'' False, td ''45.123'' False, td ''45.123'' True],
         tr_td [td '''' False, td '''' False, td ''-0.5'' False, td ''47.5'' True],
         tr_td [td ''8'' False, td ''Eve'' False, td ''46.0'' False, td ''46.0'' True]]
      = Inl KeyError"
proof -
  let ?H = "[''Car'', ''Driver'', ''Time'', ''Run 1..'']"
  let ?P = "[td ''7'' False, td ''Bob'' False, td ''45.123'' False, td ''45.123'' True]"
  let ?C = "[td '''' False, td '''' False, td ''-0.5'' False, td ''47.5'' True]"
  let ?N = "[td ''8'' False, td ''Eve'' False, td ''46.0'' False, td ''46.0'' True]"
  have h: "headers_of (th_strings (tr_th ?H)) = Inr ?H"
    by (simp add: py_strip_def rstrip_def is_space_def)
  have m: "detect_multirow ?H" by simp
  have b: "rows_loop ?H True ([], None, None) (map td_cells [tr_td ?P]) =
      Inr ([], Some [(''Car'', VStr ''7''), (''Driver'', VStr ''Bob''),
                     (''Time'', VStr ''45.123'')],
           Some [VRun (45123 / 1000, 0, ''clean'')])"
    by (simp add: eval_defs)
  have nd: "''Diff.'' \<notin> fst ` set [(''Car'', VStr ''7''), (''Driver'', VStr ''Bob''),
                     (''Time'', VStr ''45.123'')]"
    by simp
  have r: "td_cells (tr_td ?C) = td '''' False # [td '''' False, td ''-0.5'' False, td ''47.5'' True]"
    "cell_text (td '''' False) = []"
    by simp_all
  have ok: "\<not> isl (cells_loop ([], []) (zip ?H (td_cells (tr_td ?C))))"
    by (simp add: eval_defs)
  have nt: "''Total'' \<notin> fst ` set (zip ?H (td_cells (tr_td ?C)))"
    by simp
  show ?thesis
    using m nt missing_total_raises [OF h m b nd r ok nt, of "[tr_td ?N]"]
    by simp
qed

theorem multirow_stitching_witness:
  "detect_multirow [''Car'', ''Driver'', ''Total'', ''Run 1..'', ''Run 2..'', ''Run 3..'']
   \<and> (\<exists>entry.
        parse_axware_live_results
          [tr_th [''Car'', ''Driver'', ''Total'', ''Run 1..'', ''Run 2..'', ''Run 3..''],
           tr_td [td ''1'' False, td ''Bob'' False, td ''45.123'' False,
                  td ''45.123'' True, td ''44.0+1'' True, td ''46.0+dnf'' True],
           tr_td [td '''' False, td '''' False, td ''-2.345'' False,
                  td ''47.5'' True, td ''48.0+2'' True, td '''' False]]
          = Inr [entry]
        \<and> map_of entry ''Diff.'' = Some (VStr ''-2.345'')
        \<and> map_of entry ''Runs'' =
            Some (VList [VRun (45123 / 1000, 0, ''clean''), VRun (44, 1, ''dirty''),
                         VRun (46, 0, ''dnf''), VRun (95 / 2, 0, ''clean''),
                         VRun (48, 2, ''dirty'')]))"
proof -
  let ?H = "[''Car'', ''Driver'', ''Total'', ''Run 1..'', ''Run 2..'', ''Run 3..'']"
  let ?P = "[td ''1'' False, td ''Bob'' False, td ''45.123'' False,
             td ''45.123'' True, td ''44.0+1'' True, td ''46.0+dnf'' True]"
  let ?C = "[td '''' False, td '''' False, td ''-2.345'' False,
             td ''47.5'' True, td ''48.0+2'' True, td '''' False]"
  let ?e1 = "[(''Car'', VStr ''1''), (''Driver'', VStr ''Bob''), (''Total'', VStr ''45.123'')]"
  let ?r1 = "[VRun (45123 / 1000, 0, ''clean''), VRun (44, 1, ''dirty''), VRun (46, 0, ''dnf'')]"
  let ?e2 = "[(''Car'', VStr []), (''Driver'', VStr []), (''Total'', VStr ''-2.345'')]"
  let ?r2 = "[VRun (95 / 2, 0, ''clean''), VRun (48, 2, ''dirty'')]"
  have h: "headers_of (th_strings (tr_th ?H)) = Inr ?H"
    by (simp add: py_strip_def rstrip_def is_space_def)
  have m: "detect_multirow ?H" by simp
  have p: "td_cells (tr_td ?P) = td ''1'' False # tl ?P" "cell_text (td ''1'' False) \<noteq> []"
    by simp_all
  have c: "td_cells (tr_td ?C) = td '''' False # tl ?C" "cell_text (td '''' False) = []"
    by simp_all
  have ok1: "cells_loop ([], []) (zip ?H (td_cells (tr_td ?P))) = Inr (?e1, ?r1)"
    by (simp add: eval_defs)
  have ok2: "cells_loop ([], []) (zip ?H (td_cells (tr_td ?C))) = Inr (?e2, ?r2)"
    by (simp add: eval_defs)
  have t: "map_of ?e2 ''Total'' = Some (VStr ''-2.345'')" by simp
  have rc: "run_cells ?H (td_cells (tr_td ?P)) @ run_cells ?H (td_cells (tr_td ?C)) = ?r1 @ ?r2"
    using cells_loop_runs [OF ok1] cells_loop_runs [OF ok2] by simp
  have nd: "''Diff.'' \<notin> fst ` set ?e1" by simp
  from multirow_stitching [OF h m p c ok1 ok2 t] obtain entry where
    e: "parse_axware_live_results [tr_th ?H, tr_td ?P, tr_td ?C] = Inr [entry]"
      "map_of entry ''Diff.'' =
         (if ''Diff.'' \<in> fst ` set ?e1 then map_of ?e1 ''Diff.'' else Some (VStr ''-2.345''))"
      "map_of entry ''Runs'' =
         Some (VList (run_cells ?H (td_cells (tr_td ?P)) @ run_cells ?H (td_cells (tr_td ?C))))"
    by blast
  have "map_of entry ''Diff.'' = Some (VStr ''-2.345'')"
    using e(2) nd by (simp only: if_False)
  moreover have "map_of entry ''Runs'' = Some (VList (?r1 @ ?r2))"
    using e(3) unfolding rc .
  ultimately show ?thesis using m e(1) by auto
qed

theorem multirow_no_open_entry_witness:
  "detect_multirow [''Driver'', ''Run 1..'']
   \<and> parse_axware_live_results [tr_th [''Driver'', ''Run 1..'']] = Inl TypeError
   \<and> parse_axware_live_results
        [tr_th [''Driver'', ''Run 1..''], tr_td [td '''' False, td ''45.1'' True]]
      = Inl TypeError"
proof -
  let ?H = "[''Driver'', ''Run 1..'']"
  let ?C = "[td '''' False, td ''45.1'' True]"
  have h: "headers_of (th_strings (tr_th ?H)) = Inr ?H"
    by (simp add: py_strip_def rstrip_def is_space_def)
  have m: "detect_multirow ?H" by simp
  have ok: "\<not> isl (cells_loop ([], []) (zip ?H (td_cells (tr_td ?C))))"
    by (simp add: eval_defs)
  show ?thesis
    using m ok
      multirow_no_open_entry [OF h m, of "tr_td ?C" "td '''' False" "[td ''45.1'' True]" "[]"]
    by simp
qed

text \<open>
  Claim C2 as stated fails: the same two rows under a first header \<open>Pos\<close> are not
  stitched, for the continuation row's empty \<open>Pos\<close> cell raises \<open>ValueError\<close> on line
  92 and the parse ends there.
\<close>

theorem pos_first_column_not_stitched:
  "detect_multirow [''Pos'', ''Driver'', ''Total'', ''Run 1..'', ''Run 2..'', ''Run 3..'']
   \<and> parse_axware_live_results
        [tr_th [''Pos'', ''Driver'', ''Total'', ''Run 1..'', ''Run 2..'', ''Run 3..''],
         tr_td [td ''1'' False, td ''Bob'' False, td ''45.123'' False,
                td ''45.123'' True, td ''44.0+1'' True, td ''46.0+dnf'' True],
         tr_td [td '''' False, td '''' False, td ''-2.345'' False,
                td ''47.5'' True, td ''48.0+2'' True, td '''' False]]
      = Inl ValueError"
  by (simp add: eval_defs)

text \<open>
  Claim C9 as stated fails: \<open>Run 2ab\<close> contains \<open>Run\<close> and is not \<open>Run\<close>, digits and
  optional dots, yet \<open>_re_run\<close> matches it, and its cell with \<open>valign\<close> and a valid
  time is recorded as a run.
\<close>

theorem run_2ab_header_accepted:
  "py_in ''Run'' ''Run 2ab'' \<and> \<not> run_shape ''Run 2ab''
   \<and> parse_axware_live_results
        [tr_th [''Driver'', ''Run 1..'', ''Run 2ab''],
         tr_td [td ''Bob'' False, td ''45.123'' True, td ''46.5'' True]]
      = Inr [[(''Driver'', VStr ''Bob''),
              (''Runs'', VList [VRun (45123 / 1000, 0, ''clean''),
                                VRun (93 / 2, 0, ''clean'')])]]"
  by (simp add: eval_defs run_shape_def)

end
